theory Spec2Isabelle
  imports Main
begin

section \<open>Bytes, errors and the destination writer\<close>

text \<open>
  A Go byte slice is a list of characters. Offsets are \<^verbatim>\<open>int64\<close> and lengths are
  \<^verbatim>\<open>int\<close> in the source, 64 bits wide both; they are modelled as \<^typ>\<open>int\<close>, and
  the sums that \<^verbatim>\<open>flush\<close> computes wrap around as the sums of the source do.
  The mutexes of the source are not modelled: every operation below runs alone.
\<close>

type_synonym bytes = string

definition MaxInt64 :: int where
  "MaxInt64 = 9223372036854775807"

text \<open>The value of a sum in \<^verbatim>\<open>int64\<close>: two's complement, 64 bits.\<close>

definition wrap64 :: "int \<Rightarrow> int" where
  "wrap64 x = (x + 9223372036854775808) mod 18446744073709551616 - 9223372036854775808"

datatype error = DestError string

text \<open>
  The destination is an \<^verbatim>\<open>io.Writer\<close>: a method that takes the bytes and
  returns an error or none, and a state of its own. The stream ignores the byte count that
  the writer returns, so the model leaves it out.
\<close>

type_synonym 'w Writer = "'w \<Rightarrow> bytes \<Rightarrow> error option \<times> 'w"

text \<open>An in-memory destination that keeps all it receives and never fails.\<close>

definition bufferWriter :: "bytes Writer" where
  "bufferWriter d p = (None, d @ p)"

text \<open>
  A destination that accepts a number of write calls and fails on every later one, keeping
  nothing of a failed write.
\<close>

definition limitedWriter :: "(bytes \<times> nat) Writer" where
  "limitedWriter d p =
     (case d of (received, k) \<Rightarrow>
        if k = 0 then (Some (DestError ''write failed''), (received, 0))
        else (None, (received @ p, k - 1)))"

definition redactionText :: bytes where
  "redactionText = ''<redacted by SecretHub>''"

section \<open>IndexedBuffer\<close>

record IndexedBuffer =
  buffer :: bytes
  currentIndex :: int

definition CurrentIndex :: "IndexedBuffer \<Rightarrow> int" where
  "CurrentIndex b = currentIndex b"

text \<open>
  \<^verbatim>\<open>bytes.Buffer.Next(n)\<close> of Go's standard library: the next \<open>n\<close> bytes, and the
  whole buffer when it holds fewer than \<open>n\<close>. The first component is the slice returned,
  the second what stays in the buffer.
\<close>

definition Next :: "nat \<Rightarrow> bytes \<Rightarrow> bytes \<times> bytes" where
  "Next n b = (take n b, drop n b)"

text \<open>\<^verbatim>\<open>bytes.Buffer.Write\<close> appends and returns \<open>len(p)\<close> with a nil error.\<close>

definition IndexedBuffer_Write :: "IndexedBuffer \<Rightarrow> bytes \<Rightarrow> (int \<times> error option) \<times> IndexedBuffer" where
  "IndexedBuffer_Write b p = ((int (length p), None), b\<lparr>buffer := buffer b @ p\<rparr>)"

definition UpToIndex :: "IndexedBuffer \<Rightarrow> int \<Rightarrow> bytes \<times> IndexedBuffer" where
  "UpToIndex b index =
     (if index < currentIndex b then ([], b)
      else
        (let n = nat (index - currentIndex b);
             (popped, rest) = Next n (buffer b)
         in (popped, \<lparr>buffer = rest, currentIndex = index\<rparr>)))"

text \<open>
  The number of bytes ever written to the buffer: those consumed and those still held.
\<close>

definition totalWritten :: "IndexedBuffer \<Rightarrow> int" where
  "totalWritten b = currentIndex b + int (length (buffer b))"

text \<open>
  \<open>consumeUpTo\<close> as the specification words it, for comparison with \<^const>\<open>UpToIndex\<close>:
  an empty sequence below the consumed offset, a fatal failure (\<open>None\<close>) beyond the
  bytes ever written, and otherwise exactly \<open>index - consumedUpTo\<close> bytes from the head.
\<close>

definition consumeUpTo_spec :: "IndexedBuffer \<Rightarrow> int \<Rightarrow> (bytes \<times> IndexedBuffer) option" where
  "consumeUpTo_spec b index =
     (if index < currentIndex b then Some ([], b)
      else if totalWritten b < index then None
      else Some (take (nat (index - currentIndex b)) (buffer b),
                 \<lparr>buffer = drop (nat (index - currentIndex b)) (buffer b), currentIndex = index\<rparr>))"

section \<open>The matcher and the pending matches\<close>

type_synonym Matches = "int \<rightharpoonup> int"

text \<open>
  Modelled from the spec: \<^verbatim>\<open>Matches.Add\<close> is not among the source files. Section 3:
  matches are stored in a mapping from start offset to length, keyed uniquely by start
  offset. Section 7: the double insertion of a match at an already pending offset is an
  invariant violation that fails loudly; \<open>None\<close> is that fatal failure.
\<close>

definition Matches_Add :: "Matches \<Rightarrow> int \<Rightarrow> int \<Rightarrow> Matches option" where
  "Matches_Add m index len = (if m index \<noteq> None then None else Some (m(index \<mapsto> len)))"

text \<open>
  Modelled from the spec: \<^verbatim>\<open>multipleMatcher\<close> is not among the source files.
  Section 4.2: it scans the bytes delivered by successive writes and reports, for each call,
  the matches whose end boundary lies within that call, as a mapping from start offset to
  length; matching is exact; empty values never match; each occurrence is reported once, at
  its own start offset. The model keeps every byte it has consumed. The specification does
  not say which length the mapping holds when two values that end within one call start at
  one offset; the model reports the value that comes first in the configured list.
\<close>

record multipleMatcher =
  secrets :: "bytes list"
  consumed :: bytes

definition completesAt :: "bytes \<Rightarrow> nat \<Rightarrow> nat \<Rightarrow> bytes \<Rightarrow> bool" where
  "completesAt stream base start v \<longleftrightarrow>
     v \<noteq> [] \<and> take (length v) (drop start stream) = v \<and> base < start + length v"

definition matcher_Write :: "multipleMatcher \<Rightarrow> bytes \<Rightarrow> (int \<times> int) list \<times> multipleMatcher" where
  "matcher_Write m p =
     (let stream = consumed m @ p;
          base = length (consumed m);
          found = concat (map (\<lambda>start.
                    case filter (completesAt stream base start) (secrets m) of
                      [] \<Rightarrow> []
                    | v # _ \<Rightarrow> [(int start, int (length v))]) [0..<length stream])
      in (found, m\<lparr>consumed := stream\<rparr>))"

section \<open>The stream\<close>

text \<open>
  Modelled from the spec: the Masker that supplies the \<^verbatim>\<open>registerFrame\<close> callback
  is not among the source files; the field \<open>frames\<close> stands for it. Sections 3 and 4.5:
  registering a frame queues the obligation to flush that many bytes of the stream, and the
  frames of one stream are honoured in the order of their registration.
\<close>

record 'w stream =
  dest :: 'w
  buf :: IndexedBuffer
  frames :: "int list"
  matcher :: multipleMatcher
  matches :: Matches

definition registerFrame :: "'w stream \<Rightarrow> int \<Rightarrow> 'w stream" where
  "registerFrame s n = s\<lparr>frames := frames s @ [n]\<rparr>"

text \<open>
  A fresh stream over the destination \<open>d\<close> with the known secrets \<open>vs\<close>: the zero
  value of the buffer, no frame registered, no match pending.
\<close>

definition newStream :: "'w \<Rightarrow> bytes list \<Rightarrow> 'w stream" where
  "newStream d vs =
     \<lparr>dest = d, buf = \<lparr>buffer = [], currentIndex = 0\<rparr>, frames = [],
      matcher = \<lparr>secrets = vs, consumed = []\<rparr>, matches = Map.empty\<rparr>"

text \<open>\<open>None\<close> is the fatal failure of \<^const>\<open>Matches_Add\<close>; the source has no other.\<close>

definition addMatch :: "'w stream \<Rightarrow> int \<Rightarrow> int \<Rightarrow> 'w stream option" where
  "addMatch s index len =
     (if index \<ge> CurrentIndex (buf s) then
        (case Matches_Add (matches s) index len of
           None \<Rightarrow> None
         | Some m \<Rightarrow> Some (s\<lparr>matches := m\<rparr>))
      else Some s)"

text \<open>
  The loop of \<^verbatim>\<open>Write\<close> over the matches that the matcher reports. Go ranges over the
  map in no fixed order; the model takes the entries in the order of the list.
\<close>

fun addMatches :: "'w stream \<Rightarrow> (int \<times> int) list \<Rightarrow> 'w stream option" where
  "addMatches s [] = Some s"
| "addMatches s ((index, len) # rest) =
     (case addMatch s index len of
        None \<Rightarrow> None
      | Some s' \<Rightarrow> addMatches s' rest)"

definition Write :: "'w stream \<Rightarrow> bytes \<Rightarrow> ((int \<times> error option) \<times> 'w stream) option" where
  "Write s p =
     (let ((n, err), b) = IndexedBuffer_Write (buf s) p;
          s1 = s\<lparr>buf := b\<rparr>;
          s2 = (if n > 0 then registerFrame s1 n else s1);
          (found, m) = matcher_Write (matcher s2) (take (nat n) p)
      in case addMatches (s2\<lparr>matcher := m\<rparr>) found of
           None \<Rightarrow> None
         | Some s3 \<Rightarrow> Some ((n, err), s3))"

text \<open>
  The body of the loop of \<^verbatim>\<open>flush\<close> at an offset \<open>i\<close> where a match of length
  \<open>len\<close> is pending. An error of the destination ends it at once, after the buffer has
  been consumed up to \<open>i\<close> and before the match is removed.
\<close>

definition flushMatch :: "'w Writer \<Rightarrow> int \<Rightarrow> int \<Rightarrow> 'w stream \<Rightarrow> error option \<times> 'w stream" where
  "flushMatch w i len s =
     (let (beforeMatch, b1) = UpToIndex (buf s) i;
          s1 = s\<lparr>buf := b1\<rparr>;
          (err, d1) = w (dest s1) beforeMatch;
          s2 = s1\<lparr>dest := d1\<rparr>
      in case err of
           Some e \<Rightarrow> (Some e, s2)
         | None \<Rightarrow>
             (let (err2, s3) =
                    (if length beforeMatch > 0 \<or> CurrentIndex (buf s2) = 0
                     then (let (e2, d2) = w (dest s2) redactionText in (e2, s2\<lparr>dest := d2\<rparr>))
                     else (None, s2))
              in case err2 of
                   Some e \<Rightarrow> (Some e, s3)
                 | None \<Rightarrow>
                     (let (dropped, b2) = UpToIndex (buf s3) (wrap64 (i + len))
                      in (None, s3\<lparr>buf := b2, matches := (matches s3)(i := None)\<rparr>))))"

function flushLoop :: "'w Writer \<Rightarrow> int \<Rightarrow> int \<Rightarrow> 'w stream \<Rightarrow> error option \<times> 'w stream" where
  "flushLoop w i endIndex s =
     (if i < endIndex then
        (case matches s i of
           None \<Rightarrow> flushLoop w (i + 1) endIndex s
         | Some len \<Rightarrow>
             (case flushMatch w i len s of
                (Some e, s') \<Rightarrow> (Some e, s')
              | (None, s') \<Rightarrow> flushLoop w (i + 1) endIndex s'))
      else (None, s))"
  by pat_completeness auto
termination
  by (relation "measure (\<lambda>(w, i, endIndex, s). nat (endIndex - i))") auto

declare flushLoop.simps [simp del]

text \<open>
  The loop runs while \<open>i < endIndex\<close>, and \<open>endIndex\<close> is an \<^verbatim>\<open>int64\<close>, so the
  increment of \<open>i\<close> never wraps.
\<close>

definition flush :: "'w Writer \<Rightarrow> 'w stream \<Rightarrow> int \<Rightarrow> error option \<times> 'w stream" where
  "flush w s n =
     (let startIndex = CurrentIndex (buf s);
          endIndex = wrap64 (startIndex + n)
      in case flushLoop w startIndex endIndex s of
           (Some e, s1) \<Rightarrow> (Some e, s1)
         | (None, s1) \<Rightarrow>
             (let (rest, b) = UpToIndex (buf s1) endIndex;
                  (err, d) = w (dest s1) rest
              in (err, s1\<lparr>buf := b, dest := d\<rparr>)))"

text \<open>
  Modelled from the spec: the scheduler of the Masker is not among the source files.
  Section 4.5: every registered frame is flushed, the frames of a stream in the order of
  their registration; a failure of the destination ends the run.
\<close>

fun flushFrames :: "'w Writer \<Rightarrow> int list \<Rightarrow> 'w stream \<Rightarrow> error option \<times> 'w stream" where
  "flushFrames w [] s = (None, s)"
| "flushFrames w (n # ns) s =
     (case flush w s n of
        (Some e, s') \<Rightarrow> (Some e, s')
      | (None, s') \<Rightarrow> flushFrames w ns s')"

definition flushScheduled :: "'w Writer \<Rightarrow> 'w stream \<Rightarrow> error option \<times> 'w stream" where
  "flushScheduled w s = flushFrames w (frames s) (s\<lparr>frames := []\<rparr>)"

text \<open>A sequence of writes, stopping at a fatal failure.\<close>

fun writeAll :: "'w stream \<Rightarrow> bytes list \<Rightarrow> 'w stream option" where
  "writeAll s [] = Some s"
| "writeAll s (p # ps) =
     (case Write s p of
        None \<Rightarrow> None
      | Some (r, s') \<Rightarrow> writeAll s' ps)"

section \<open>Runs of a stream\<close>

text \<open>One flush call for all the bytes that the buffer holds.\<close>

definition flushBuffered :: "'w Writer \<Rightarrow> 'w stream \<Rightarrow> error option \<times> 'w stream" where
  "flushBuffered w s = flush w s (int (length (buffer (buf s))))"

text \<open>
  A fresh stream over an empty in-memory destination, with the known secrets \<open>vs\<close>,
  receives the writes \<open>ps\<close>; then all buffered bytes are flushed, by one flush call
  (\<open>flushedOutput\<close>) or frame by frame (\<open>scheduledOutput\<close>). The result is the error of
  the flush and the bytes at the destination, or \<open>None\<close> after a fatal failure.
\<close>

definition flushedOutput :: "bytes list \<Rightarrow> bytes list \<Rightarrow> (error option \<times> bytes) option" where
  "flushedOutput vs ps =
     (case writeAll (newStream [] vs) ps of
        None \<Rightarrow> None
      | Some s \<Rightarrow> (case flushBuffered bufferWriter s of (err, s') \<Rightarrow> Some (err, dest s')))"

definition scheduledOutput :: "bytes list \<Rightarrow> bytes list \<Rightarrow> (error option \<times> bytes) option" where
  "scheduledOutput vs ps =
     (case writeAll (newStream [] vs) ps of
        None \<Rightarrow> None
      | Some s \<Rightarrow> (case flushScheduled bufferWriter s of (err, s') \<Rightarrow> Some (err, dest s')))"

text \<open>The match pending at offset \<open>j\<close> after the writes \<open>ps\<close> on a fresh stream.\<close>

definition pendingAt :: "bytes list \<Rightarrow> bytes list \<Rightarrow> int \<Rightarrow> int option" where
  "pendingAt vs ps j =
     (case writeAll (newStream ([] :: bytes) vs) ps of
        None \<Rightarrow> None
      | Some s \<Rightarrow> matches s j)"

text \<open>
  Modelled from the spec: the scheduler of the Masker is not among the source files.
  Section 4.5: writes and flushes alternate in any order, and a flush honours the frame
  that was registered first and is still waiting.
\<close>

datatype event = WriteBytes bytes | FlushFrame

definition flushNext :: "'w Writer \<Rightarrow> 'w stream \<Rightarrow> error option \<times> 'w stream" where
  "flushNext w s =
     (case frames s of
        [] \<Rightarrow> (None, s)
      | n # ns \<Rightarrow> flush w (s\<lparr>frames := ns\<rparr>) n)"

text \<open>\<open>None\<close> is a fatal failure of a write or an error of the destination.\<close>

fun runEvents :: "'w Writer \<Rightarrow> 'w stream \<Rightarrow> event list \<Rightarrow> 'w stream option" where
  "runEvents w s [] = Some s"
| "runEvents w s (WriteBytes p # es) =
     (case Write s p of
        None \<Rightarrow> None
      | Some (r, s') \<Rightarrow> runEvents w s' es)"
| "runEvents w s (FlushFrame # es) =
     (case flushNext w s of
        (Some e, s') \<Rightarrow> None
      | (None, s') \<Rightarrow> runEvents w s' es)"

text \<open>
  Three streams for the examples below: six bytes with two adjacent matches pending, six
  bytes with a match pending that ends beyond the third byte, and nine bytes with a match
  pending over a destination that accepts \<open>k\<close> more writes.
\<close>

definition adjacentStream :: "bytes stream" where
  "adjacentStream =
     \<lparr>dest = [], buf = \<lparr>buffer = ''xAABBy'', currentIndex = 0\<rparr>, frames = [6],
      matcher = \<lparr>secrets = [''AA'', ''BB''], consumed = ''xAABBy''\<rparr>,
      matches = [1 \<mapsto> 2, 3 \<mapsto> 2]\<rparr>"

definition straddlingStream :: "bytes stream" where
  "straddlingStream =
     \<lparr>dest = [], buf = \<lparr>buffer = ''abcdef'', currentIndex = 0\<rparr>, frames = [3, 3],
      matcher = \<lparr>secrets = [''bcde''], consumed = ''abcdef''\<rparr>,
      matches = [1 \<mapsto> 4]\<rparr>"

definition failingStream :: "nat \<Rightarrow> (bytes \<times> nat) stream" where
  "failingStream k =
     \<lparr>dest = ([], k), buf = \<lparr>buffer = ''abcXYZdef'', currentIndex = 0\<rparr>, frames = [9],
      matcher = \<lparr>secrets = [''XYZ''], consumed = ''abcXYZdef''\<rparr>,
      matches = [3 \<mapsto> 3]\<rparr>"

text \<open>The number of offsets of \<open>xs\<close> at which \<open>pat\<close> occurs as a contiguous substring.\<close>

definition occurrences :: "bytes \<Rightarrow> bytes \<Rightarrow> nat" where
  "occurrences pat xs =
     length (filter (\<lambda>k. take (length pat) (drop k xs) = pat) [0..<length xs])"

section \<open>The output of a flush over matches that do not overlap\<close>

text \<open>
  The matches of a flushed range as a list of pairs of start offset and length, in the
  order of their offsets. \<open>ordered c ms e\<close>: the matches are non-empty, lie in the range
  from \<open>c\<close> to \<open>e\<close> in the order of the list, and do not overlap. \<open>masked c data ms\<close>
  is the data, whose first byte has offset \<open>c\<close>, with the span of every match taken
  out and, under the guard of the source, replaced by the marker: when bytes lie between
  the offset \<open>c\<close> already consumed and the match, or when the match starts at offset 0.
\<close>

fun masked :: "int \<Rightarrow> bytes \<Rightarrow> (int \<times> int) list \<Rightarrow> bytes" where
  "masked c data [] = data"
| "masked c data ((i, len) # ms) =
     take (nat (i - c)) data @ (if c < i \<or> i = 0 then redactionText else [])
       @ masked (i + len) (drop (nat (i + len - c)) data) ms"

fun ordered :: "int \<Rightarrow> (int \<times> int) list \<Rightarrow> int \<Rightarrow> bool" where
  "ordered c [] e = (c \<le> e)"
| "ordered c ((i, len) # ms) e = (c \<le> i \<and> 0 < len \<and> ordered (i + len) ms e)"

text \<open>
  The rest of a flush whose loop stands at offset \<open>i\<close>: the loop from \<open>i\<close> on, then the
  write of the bytes after the last match. \<^const>\<open>flush\<close> is \<open>flushFrom\<close> at the offset
  where the flush starts.
\<close>

definition flushFrom :: "'w Writer \<Rightarrow> int \<Rightarrow> int \<Rightarrow> 'w stream \<Rightarrow> error option \<times> 'w stream" where
  "flushFrom w i endIndex s =
     (case flushLoop w i endIndex s of
        (Some e, s1) \<Rightarrow> (Some e, s1)
      | (None, s1) \<Rightarrow>
          (let (rest, b) = UpToIndex (buf s1) endIndex;
               (err, d) = w (dest s1) rest
           in (err, s1\<lparr>buf := b, dest := d\<rparr>)))"

section \<open>IndexedBuffer: consuming up to an index\<close>

lemma UpToIndex_below:
  "index < currentIndex b \<Longrightarrow> UpToIndex b index = ([], b)"
  by (simp add: UpToIndex_def)

lemma UpToIndex_from:
  "currentIndex b \<le> index \<Longrightarrow>
   UpToIndex b index =
     (take (nat (index - currentIndex b)) (buffer b),
      \<lparr>buffer = drop (nat (index - currentIndex b)) (buffer b), currentIndex = index\<rparr>)"
  by (simp add: UpToIndex_def Next_def Let_def)

text \<open>
  Claim C8. Consuming up to the same index twice, for an index between the consumed offset
  and the bytes written: the first call returns the buffered bytes up to the index, the
  second call returns the empty sequence, and the consumed offset stays at the index.
\<close>

theorem UpToIndex_twice:
  assumes "currentIndex b \<le> index" and "index \<le> totalWritten b"
  shows "fst (UpToIndex b index) = take (nat (index - currentIndex b)) (buffer b)
       \<and> int (length (fst (UpToIndex b index))) = index - currentIndex b
       \<and> fst (UpToIndex (snd (UpToIndex b index)) index) = []
       \<and> currentIndex (snd (UpToIndex (snd (UpToIndex b index)) index)) = index
       \<and> snd (UpToIndex (snd (UpToIndex b index)) index) = snd (UpToIndex b index)"
  using assms by (simp add: UpToIndex_from totalWritten_def)

text \<open>Witness of C8: six bytes buffered at offset 10, consumed up to offset 14.\<close>

theorem UpToIndex_twice_witness:
  "fst (UpToIndex \<lparr>buffer = ''abcdef'', currentIndex = 10\<rparr> 14) = ''abcd''
   \<and> fst (UpToIndex (snd (UpToIndex \<lparr>buffer = ''abcdef'', currentIndex = 10\<rparr> 14)) 14) = []
   \<and> currentIndex (snd (UpToIndex (snd (UpToIndex \<lparr>buffer = ''abcdef'', currentIndex = 10\<rparr> 14)) 14)) = 14"
  using UpToIndex_twice [of "\<lparr>buffer = ''abcdef'', currentIndex = 10\<rparr>" 14]
  by (simp add: totalWritten_def UpToIndex_def Next_def)

text \<open>
  Claim C6, as the code has it. For an index from the consumed offset up to the bytes ever
  written, \<open>UpToIndex\<close> pops exactly \<open>index - consumedUpTo\<close> bytes, advances the
  consumed offset to the index, and agrees with the specification's \<open>consumeUpTo\<close>.
  For an index beyond the bytes ever written the call does not fail: it returns the whole
  buffer, which is shorter than \<open>index - consumedUpTo\<close>, leaves the buffer empty and
  sets the consumed offset to the index.
\<close>

theorem UpToIndex_consumes:
  "(currentIndex b \<le> index \<and> index \<le> totalWritten b \<longrightarrow>
      int (length (fst (UpToIndex b index))) = index - currentIndex b
      \<and> fst (UpToIndex b index) = take (nat (index - currentIndex b)) (buffer b)
      \<and> buffer (snd (UpToIndex b index)) = drop (nat (index - currentIndex b)) (buffer b)
      \<and> currentIndex (snd (UpToIndex b index)) = index
      \<and> consumeUpTo_spec b index = Some (UpToIndex b index))
   \<and> (totalWritten b < index \<longrightarrow>
      fst (UpToIndex b index) = buffer b
      \<and> int (length (fst (UpToIndex b index))) < index - currentIndex b
      \<and> snd (UpToIndex b index) = \<lparr>buffer = [], currentIndex = index\<rparr>)"
  by (auto simp: UpToIndex_from totalWritten_def consumeUpTo_spec_def)

text \<open>
  Witness of C6: six bytes buffered at offset 10, consumed up to offset 14, within the
  bytes written, and up to offset 20, beyond them.
\<close>

theorem UpToIndex_consumes_witness:
  "fst (UpToIndex \<lparr>buffer = ''abcdef'', currentIndex = 10\<rparr> 14) = ''abcd''
   \<and> snd (UpToIndex \<lparr>buffer = ''abcdef'', currentIndex = 10\<rparr> 14) = \<lparr>buffer = ''ef'', currentIndex = 14\<rparr>
   \<and> consumeUpTo_spec \<lparr>buffer = ''abcdef'', currentIndex = 10\<rparr> 14
       = Some (UpToIndex \<lparr>buffer = ''abcdef'', currentIndex = 10\<rparr> 14)
   \<and> fst (UpToIndex \<lparr>buffer = ''abcdef'', currentIndex = 10\<rparr> 20) = ''abcdef''
   \<and> snd (UpToIndex \<lparr>buffer = ''abcdef'', currentIndex = 10\<rparr> 20) = \<lparr>buffer = [], currentIndex = 20\<rparr>"
  using UpToIndex_consumes [of "\<lparr>buffer = ''abcdef'', currentIndex = 10\<rparr>" 14]
        UpToIndex_consumes [of "\<lparr>buffer = ''abcdef'', currentIndex = 10\<rparr>" 20]
  by (simp add: totalWritten_def UpToIndex_def Next_def consumeUpTo_spec_def)

text \<open>
  Claim C6, as the specification states it, fails: with two bytes written and none
  consumed, index 5 lies beyond the bytes ever written, the specification's
  \<open>consumeUpTo\<close> fails fatally there, and \<open>UpToIndex\<close> returns normally.
\<close>

theorem UpToIndex_overrun_counterexample:
  "totalWritten \<lparr>buffer = ''ab'', currentIndex = 0\<rparr> < 5
   \<and> consumeUpTo_spec \<lparr>buffer = ''ab'', currentIndex = 0\<rparr> 5 = None
   \<and> UpToIndex \<lparr>buffer = ''ab'', currentIndex = 0\<rparr> 5 = (''ab'', \<lparr>buffer = [], currentIndex = 5\<rparr>)"
  by (simp add: totalWritten_def consumeUpTo_spec_def UpToIndex_def Next_def)

section \<open>Recording a match\<close>

text \<open>
  Claim C7. A match whose start offset lies below the consumed offset of the buffer is
  dropped: \<open>addMatch\<close> returns normally and leaves the whole stream as it was, the pending
  matches and the bytes at the destination included.
\<close>

theorem addMatch_already_flushed:
  "index < CurrentIndex (buf s) \<Longrightarrow> addMatch s index len = Some s"
  by (simp add: addMatch_def)

text \<open>
  Witness of C7: the bytes \<open>late\<close> have been flushed in plaintext when their match at
  offset 0 is reported.
\<close>

theorem addMatch_already_flushed_witness:
  "(0::int) < CurrentIndex (buf \<lparr>dest = ''late'', buf = \<lparr>buffer = [], currentIndex = 4\<rparr>,
        frames = [], matcher = \<lparr>secrets = [''late''], consumed = ''late''\<rparr>, matches = Map.empty\<rparr>)
   \<and> addMatch \<lparr>dest = ''late'', buf = \<lparr>buffer = [], currentIndex = 4\<rparr>,
        frames = [], matcher = \<lparr>secrets = [''late''], consumed = ''late''\<rparr>, matches = Map.empty\<rparr> 0 4
     = Some \<lparr>dest = ''late'', buf = \<lparr>buffer = [], currentIndex = 4\<rparr>,
        frames = [], matcher = \<lparr>secrets = [''late''], consumed = ''late''\<rparr>, matches = Map.empty\<rparr>"
  using addMatch_already_flushed [of 0 "\<lparr>dest = ''late'', buf = \<lparr>buffer = [], currentIndex = 4\<rparr>,
        frames = [], matcher = \<lparr>secrets = [''late''], consumed = ''late''\<rparr>, matches = Map.empty\<rparr>" 4]
  by (simp add: CurrentIndex_def)

section \<open>The loop of flush\<close>

text \<open>
  The loop ends at the end index, passes an offset with no pending match unchanged, and
  runs the body at an offset with a pending match.
\<close>

lemma flushLoop_done: "e \<le> i \<Longrightarrow> flushLoop w i e s = (None, s)"
  by (simp add: flushLoop.simps)

lemma flushLoop_none:
  "i < e \<Longrightarrow> matches s i = None \<Longrightarrow> flushLoop w i e s = flushLoop w (i + 1) e s"
  by (subst flushLoop.simps) simp

lemma flushLoop_match:
  "i < e \<Longrightarrow> matches s i = Some len \<Longrightarrow>
   flushLoop w i e s =
     (case flushMatch w i len s of
        (Some er, s') \<Rightarrow> (Some er, s')
      | (None, s') \<Rightarrow> flushLoop w (i + 1) e s')"
  by (subst flushLoop.simps) simp

lemma flushLoop_skip:
  assumes "i \<le> k" and "k \<le> e" and "\<forall>j. i \<le> j \<and> j < k \<longrightarrow> matches s j = None"
  shows "flushLoop w i e s = flushLoop w k e s"
  using assms
proof (induction k rule: int_ge_induct)
  case base
  show ?case by simp
next
  case (step k)
  then have "flushLoop w i e s = flushLoop w k e s" by simp
  also have "\<dots> = flushLoop w (k + 1) e s"
    using step.prems step.hyps by (intro flushLoop_none) auto
  finally show ?case .
qed

lemma wrap64_id: "- MaxInt64 - 1 \<le> x \<Longrightarrow> x \<le> MaxInt64 \<Longrightarrow> wrap64 x = x"
  by (simp add: wrap64_def MaxInt64_def)

lemma flush_flushFrom:
  "flush w s n = flushFrom w (currentIndex (buf s)) (wrap64 (currentIndex (buf s) + n)) s"
  by (simp add: flush_def flushFrom_def CurrentIndex_def Let_def)


lemma UpToIndex_currentIndex:
  "currentIndex (snd (UpToIndex b k)) = max (currentIndex b) k"
  by (simp add: UpToIndex_def Next_def Let_def)

section \<open>The consumed offset after a flush\<close>

text \<open>
  The body of the loop moves the consumed offset to the larger of the start and the end of
  the match, never backwards, and touches no pending match but its own.
\<close>

lemma flushMatch_currentIndex:
  assumes "flushMatch w i len s = (None, s')"
  shows "currentIndex (buf s') = max (max (currentIndex (buf s)) i) (wrap64 (i + len))
       \<and> (\<forall>j. j \<noteq> i \<longrightarrow> matches s' j = matches s j)"
  using assms
  by (auto simp: flushMatch_def Let_def UpToIndex_currentIndex
           split: prod.splits option.splits if_splits
           dest!: arg_cong [where f = "\<lambda>r. currentIndex (snd r)"])


lemma flushLoop_covers:
  "flushLoop w i e s = (None, s') \<Longrightarrow>
   currentIndex (buf s) \<le> currentIndex (buf s')
   \<and> (\<forall>j len. i \<le> j \<and> j < e \<and> matches s j = Some len \<longrightarrow> wrap64 (j + len) \<le> currentIndex (buf s'))"
proof (induction "nat (e - i)" arbitrary: i s)
  case 0
  then show ?case by (simp add: flushLoop_done)
next
  case (Suc k)
  then have lt: "i < e" by simp
  have k: "k = nat (e - (i + 1))" using Suc.hyps(2) by simp
  show ?case
  proof (cases "matches s i")
    case None
    have "flushLoop w (i + 1) e s = (None, s')"
      using Suc.prems flushLoop_none [OF lt None, of w] by simp
    from Suc.hyps(1) [OF k this]
    have ih: "currentIndex (buf s) \<le> currentIndex (buf s')
       \<and> (\<forall>j l. i + 1 \<le> j \<and> j < e \<and> matches s j = Some l \<longrightarrow> wrap64 (j + l) \<le> currentIndex (buf s'))" .
    show ?thesis
    proof (intro conjI allI impI)
      show "currentIndex (buf s) \<le> currentIndex (buf s')" using ih by simp
    next
      fix j l assume a: "i \<le> j \<and> j < e \<and> matches s j = Some l"
      then have "j \<noteq> i" using None by auto
      then have "i + 1 \<le> j" using a by simp
      then show "wrap64 (j + l) \<le> currentIndex (buf s')" using ih a by blast
    qed
  next
    case (Some len)
    obtain r s1 where fm: "flushMatch w i len s = (r, s1)" by (cases "flushMatch w i len s")
    have r: "r = None"
      using Suc.prems flushLoop_match [OF lt Some, of w] fm by (cases r) simp_all
    have loop: "flushLoop w (i + 1) e s1 = (None, s')"
      using Suc.prems flushLoop_match [OF lt Some, of w] fm r by simp
    have c1: "currentIndex (buf s1) = max (max (currentIndex (buf s)) i) (wrap64 (i + len))"
      and m1: "\<forall>j. j \<noteq> i \<longrightarrow> matches s1 j = matches s j"
      using flushMatch_currentIndex [of w i len s s1] fm r by simp_all
    have ih: "currentIndex (buf s1) \<le> currentIndex (buf s')
       \<and> (\<forall>j l. i + 1 \<le> j \<and> j < e \<and> matches s1 j = Some l \<longrightarrow> wrap64 (j + l) \<le> currentIndex (buf s'))"
      using Suc.hyps(1) [OF k loop] .
    show ?thesis
    proof (intro conjI allI impI)
      show "currentIndex (buf s) \<le> currentIndex (buf s')" using ih c1 by simp
    next
      fix j l assume a: "i \<le> j \<and> j < e \<and> matches s j = Some l"
      show "wrap64 (j + l) \<le> currentIndex (buf s')"
      proof (cases "j = i")
        case True
        then have "l = len" using a Some by simp
        then show ?thesis using True ih c1 by simp
      next
        case False
        then have "i + 1 \<le> j" and "matches s1 j = Some l" using a m1 by auto
        then show ?thesis using ih a by blast
      qed
    qed
  qed
qed

lemma flushLoop_reaches:
  "flushLoop w i e s = (None, s') \<Longrightarrow>
   currentIndex (buf s') = currentIndex (buf s)
   \<or> (\<exists>j len. i \<le> j \<and> j < e \<and> matches s j = Some len
         \<and> (currentIndex (buf s') = j \<or> currentIndex (buf s') = wrap64 (j + len)))"
proof (induction "nat (e - i)" arbitrary: i s)
  case 0
  then show ?case by (simp add: flushLoop_done)
next
  case (Suc k)
  then have lt: "i < e" by simp
  have k: "k = nat (e - (i + 1))" using Suc.hyps(2) by simp
  show ?case
  proof (cases "matches s i")
    case None
    have "flushLoop w (i + 1) e s = (None, s')"
      using Suc.prems flushLoop_none [OF lt None, of w] by simp
    from Suc.hyps(1) [OF k this]
    consider "currentIndex (buf s') = currentIndex (buf s)"
      | j l where "i + 1 \<le> j" "j < e" "matches s j = Some l"
          "currentIndex (buf s') = j \<or> currentIndex (buf s') = wrap64 (j + l)"
      by blast
    then show ?thesis
    proof cases
      case 1
      then show ?thesis by simp
    next
      case 2
      then have "i \<le> j" by simp
      then show ?thesis using 2 by blast
    qed
  next
    case (Some len)
    obtain r s1 where fm: "flushMatch w i len s = (r, s1)" by (cases "flushMatch w i len s")
    have r: "r = None"
      using Suc.prems flushLoop_match [OF lt Some, of w] fm by (cases r) simp_all
    have loop: "flushLoop w (i + 1) e s1 = (None, s')"
      using Suc.prems flushLoop_match [OF lt Some, of w] fm r by simp
    have c1: "currentIndex (buf s1) = max (max (currentIndex (buf s)) i) (wrap64 (i + len))"
      and m1: "\<forall>j. j \<noteq> i \<longrightarrow> matches s1 j = matches s j"
      using flushMatch_currentIndex [of w i len s s1] fm r by simp_all
    from Suc.hyps(1) [OF k loop]
    consider "currentIndex (buf s') = currentIndex (buf s1)"
      | j l where "i + 1 \<le> j" "j < e" "matches s1 j = Some l"
          "currentIndex (buf s') = j \<or> currentIndex (buf s') = wrap64 (j + l)"
      by blast
    then show ?thesis
    proof cases
      case 1
      then have "currentIndex (buf s') = currentIndex (buf s)
           \<or> currentIndex (buf s') = i \<or> currentIndex (buf s') = wrap64 (i + len)"
        using c1 by (auto simp: max_def)
      then show ?thesis using lt Some by auto
    next
      case 2
      then have "matches s j = Some l" and "i \<le> j" using m1 by auto
      then show ?thesis using 2 by blast
    qed
  qed
qed

text \<open>
  Claim C5, as the code has it. The consumed offset is not negative, the bytes ever
  written are at most \<open>MaxInt64\<close>, \<open>n\<close> is a count that does not exceed the buffered
  bytes, and every match pending in the range from \<open>start\<close> to \<open>start + n\<close> is a span of
  written bytes. A flush of \<open>n\<close> bytes that returns no error leaves the consumed offset at
  the largest of \<open>start + n\<close> and the end offsets of the matches pending in that range:
  at \<open>start + n\<close> when every such match ends within the range, and at the end of a match
  that reaches beyond the range otherwise.
\<close>

theorem flush_consumes:
  assumes "flush w s n = (None, s')"
    and "0 \<le> n" and "n \<le> int (length (buffer (buf s)))"
    and "0 \<le> CurrentIndex (buf s)" and "totalWritten (buf s) \<le> MaxInt64"
    and "\<forall>i len. CurrentIndex (buf s) \<le> i \<and> i < CurrentIndex (buf s) + n \<and> matches s i = Some len
           \<longrightarrow> 0 \<le> len \<and> i + len \<le> totalWritten (buf s)"
  shows "CurrentIndex (buf s') =
     Max ({CurrentIndex (buf s) + n}
          \<union> {i + len | i len. CurrentIndex (buf s) \<le> i \<and> i < CurrentIndex (buf s) + n
                                \<and> matches s i = Some len})"
    (is "_ = Max ?A")
proof -
  let ?c = "currentIndex (buf s)"
  let ?e = "?c + n"
  have c0: "0 \<le> ?c" and top: "?c + int (length (buffer (buf s))) \<le> MaxInt64"
    using assms(4,5) by (simp_all add: CurrentIndex_def totalWritten_def)
  have e: "wrap64 (?c + n) = ?e"
    using c0 top assms(2,3) by (intro wrap64_id) (simp_all add: MaxInt64_def)
  have inside: "\<forall>j len. ?c \<le> j \<and> j < ?e \<and> matches s j = Some len \<longrightarrow> wrap64 (j + len) = j + len"
  proof (intro allI impI)
    fix j len assume a: "?c \<le> j \<and> j < ?e \<and> matches s j = Some len"
    then have "0 \<le> len \<and> j + len \<le> ?c + int (length (buffer (buf s)))"
      using assms(6) by (simp add: CurrentIndex_def totalWritten_def)
    then show "wrap64 (j + len) = j + len"
      using a c0 top by (intro wrap64_id) (simp_all add: MaxInt64_def)
  qed
  obtain r s1 where loop: "flushLoop w ?c ?e s = (r, s1)" by (cases "flushLoop w ?c ?e s")
  have r: "r = None"
    using assms(1) loop e by (cases r) (simp_all add: flush_def CurrentIndex_def)
  have c': "currentIndex (buf s') = max (currentIndex (buf s1)) ?e"
    using assms(1) loop r e UpToIndex_currentIndex [of "buf s1" ?e]
    by (auto simp: flush_def CurrentIndex_def Let_def split: prod.splits)
  have cov: "?c \<le> currentIndex (buf s1)
       \<and> (\<forall>j len. ?c \<le> j \<and> j < ?e \<and> matches s j = Some len
             \<longrightarrow> wrap64 (j + len) \<le> currentIndex (buf s1))"
    using loop r by (intro flushLoop_covers) simp
  have reach: "currentIndex (buf s1) = ?c
       \<or> (\<exists>j len. ?c \<le> j \<and> j < ?e \<and> matches s j = Some len
            \<and> (currentIndex (buf s1) = j \<or> currentIndex (buf s1) = wrap64 (j + len)))"
    using loop r by (intro flushLoop_reaches) simp
  have fin: "finite ?A"
  proof -
    have "?A \<subseteq> insert (CurrentIndex (buf s) + n)
             ((\<lambda>i. i + the (matches s i)) ` {CurrentIndex (buf s)..<CurrentIndex (buf s) + n})"
      by force
    then show ?thesis by (rule finite_subset) simp
  qed
  have ub: "\<forall>y\<in>?A. y \<le> currentIndex (buf s')"
  proof
    fix y assume "y \<in> ?A"
    then consider "y = ?e"
      | j len where "?c \<le> j" "j < ?e" "matches s j = Some len" "y = j + len"
      by (auto simp: CurrentIndex_def)
    then show "y \<le> currentIndex (buf s')"
    proof cases
      case 1
      then show ?thesis using c' by simp
    next
      case 2
      then have "wrap64 (j + len) \<le> currentIndex (buf s1)" using cov by blast
      moreover have "wrap64 (j + len) = j + len" using 2 inside by blast
      ultimately show ?thesis using c' 2 by simp
    qed
  qed
  have mem: "currentIndex (buf s') \<in> ?A"
  proof (cases "currentIndex (buf s1) \<le> ?e")
    case True
    then show ?thesis using c' by (simp add: CurrentIndex_def)
  next
    case False
    then obtain j len where j: "?c \<le> j" "j < ?e" "matches s j = Some len"
        "currentIndex (buf s1) = wrap64 (j + len)"
      using reach assms(2) by auto
    moreover have "wrap64 (j + len) = j + len" using j inside by blast
    ultimately show ?thesis using c' False by (auto simp: CurrentIndex_def)
  qed
  have "Max ?A = currentIndex (buf s')"
    using fin ub mem by (intro Max_eqI) auto
  then show ?thesis by (simp add: CurrentIndex_def)
qed

text \<open>
  Witness of C5: a flush of three of six buffered bytes with a match pending at offset 1
  that ends at offset 5.
\<close>

theorem flush_consumes_witness:
  "fst (flush bufferWriter straddlingStream 3) = None
   \<and> CurrentIndex (buf (snd (flush bufferWriter straddlingStream 3))) = 5
   \<and> Max ({CurrentIndex (buf straddlingStream) + 3}
          \<union> {i + len | i len.
               CurrentIndex (buf straddlingStream) \<le> i
               \<and> i < CurrentIndex (buf straddlingStream) + 3
               \<and> matches straddlingStream i = Some len}) = 5"
proof -
  have a: "fst (flush bufferWriter straddlingStream 3) = None"
    by code_simp
  have b: "CurrentIndex (buf (snd (flush bufferWriter straddlingStream 3))) = 5"
    by code_simp
  have h1: "flush bufferWriter straddlingStream 3 = (None, snd (flush bufferWriter straddlingStream 3))"
    using a by (simp add: prod_eq_iff)
  have h2: "(0::int) \<le> 3" and h3: "3 \<le> int (length (buffer (buf straddlingStream)))"
    and h4: "0 \<le> CurrentIndex (buf straddlingStream)"
    and h5: "totalWritten (buf straddlingStream) \<le> MaxInt64"
    by (simp_all add: straddlingStream_def CurrentIndex_def totalWritten_def MaxInt64_def)
  have h6: "\<forall>i len. CurrentIndex (buf straddlingStream) \<le> i
              \<and> i < CurrentIndex (buf straddlingStream) + 3 \<and> matches straddlingStream i = Some len
           \<longrightarrow> 0 \<le> len \<and> i + len \<le> totalWritten (buf straddlingStream)"
    by (auto simp: straddlingStream_def CurrentIndex_def totalWritten_def split: if_splits)
  from flush_consumes [OF h1 h2 h3 h4 h5 h6] a b show ?thesis
    by simp
qed

text \<open>
  Claim C5, as the specification states it, fails: a flush of three of six buffered bytes
  at offset 0, with a match pending at offset 1 that ends at offset 5, returns no error and
  leaves the consumed offset at 5, not at 3.
\<close>

theorem flush_consumes_counterexample:
  "CurrentIndex (buf straddlingStream) = 0
   \<and> length (buffer (buf straddlingStream)) = 6
   \<and> matches straddlingStream 1 = Some 4
   \<and> fst (flush bufferWriter straddlingStream 3) = None
   \<and> CurrentIndex (buf (snd (flush bufferWriter straddlingStream 3))) = 5
   \<and> CurrentIndex (buf (snd (flush bufferWriter straddlingStream 3)))
       \<noteq> CurrentIndex (buf straddlingStream) + 3"
  by code_simp

section \<open>A flush over matches that do not overlap\<close>

lemma flushMatch_buffer:
  assumes "currentIndex (buf s) \<le> i" and "i - currentIndex (buf s) < int (length (buffer (buf s)))"
    and "0 \<le> len" and "0 \<le> currentIndex (buf s)" and "i + len \<le> MaxInt64"
  shows "flushMatch bufferWriter i len s =
     (None, s\<lparr>dest := dest s @ take (nat (i - currentIndex (buf s))) (buffer (buf s))
                   @ (if currentIndex (buf s) < i \<or> i = 0 then redactionText else []),
              buf := \<lparr>buffer = drop (nat (i + len - currentIndex (buf s))) (buffer (buf s)),
                      currentIndex = i + len\<rparr>,
              matches := (matches s)(i := None)\<rparr>)"
proof -
  let ?c = "currentIndex (buf s)"
  have n: "nat len + nat (i - ?c) = nat (i + len - ?c)"
    using assms by simp
  have ne: "buffer (buf s) \<noteq> []"
    using assms by auto
  have w: "wrap64 (i + len) = i + len"
    using assms by (intro wrap64_id) (simp_all add: MaxInt64_def)
  show ?thesis
    using assms ne
    by (simp add: flushMatch_def UpToIndex_from bufferWriter_def CurrentIndex_def Let_def n w)
qed

lemma ordered_end: "ordered c ms e \<Longrightarrow> c \<le> e"
  by (induction c ms e rule: ordered.induct) auto

lemma ordered_before: "ordered c ms e \<Longrightarrow> j < c \<Longrightarrow> map_of ms j = None"
  by (induction c ms e rule: ordered.induct) auto

lemma flushFrom_plain:
  assumes "currentIndex (buf s) = c" and "c \<le> e"
    and "\<forall>j. c \<le> j \<and> j < e \<longrightarrow> matches s j = None"
  shows "flushFrom bufferWriter c e s =
     (None, s\<lparr>buf := \<lparr>buffer = drop (nat (e - c)) (buffer (buf s)), currentIndex = e\<rparr>,
              dest := dest s @ take (nat (e - c)) (buffer (buf s))\<rparr>)"
proof -
  have "flushLoop bufferWriter c e s = flushLoop bufferWriter e e s"
    using assms by (intro flushLoop_skip) auto
  then have "flushLoop bufferWriter c e s = (None, s)"
    by (simp add: flushLoop_done)
  then show ?thesis
    using assms by (simp add: flushFrom_def UpToIndex_from bufferWriter_def)
qed


lemma flushFrom_step:
  assumes "currentIndex (buf s) = c" and "c \<le> i" and "0 < len" and "i + len \<le> e"
    and "e \<le> c + int (length (buffer (buf s)))"
    and "matches s i = Some len"
    and "\<forall>j. c \<le> j \<and> j < i + len \<and> j \<noteq> i \<longrightarrow> matches s j = None"
    and "0 \<le> c" and "e \<le> MaxInt64"
  shows "flushFrom bufferWriter c e s =
     flushFrom bufferWriter (i + len) e
       (s\<lparr>dest := dest s @ take (nat (i - c)) (buffer (buf s))
                   @ (if c < i \<or> i = 0 then redactionText else []),
          buf := \<lparr>buffer = drop (nat (i + len - c)) (buffer (buf s)), currentIndex = i + len\<rparr>,
          matches := (matches s)(i := None)\<rparr>)"
    (is "_ = flushFrom bufferWriter (i + len) e ?s1")
proof -
  have "flushLoop bufferWriter c e s = flushLoop bufferWriter i e s"
    using assms by (intro flushLoop_skip) auto
  also have "\<dots> = (case flushMatch bufferWriter i len s of
                      (Some er, s') \<Rightarrow> (Some er, s')
                    | (None, s') \<Rightarrow> flushLoop bufferWriter (i + 1) e s')"
    using assms by (intro flushLoop_match) auto
  also have "flushMatch bufferWriter i len s = (None, ?s1)"
    using assms flushMatch_buffer [of s i len] by simp
  finally have "flushLoop bufferWriter c e s = flushLoop bufferWriter (i + 1) e ?s1"
    by simp
  also have "\<dots> = flushLoop bufferWriter (i + len) e ?s1"
    using assms by (intro flushLoop_skip) auto
  finally show ?thesis
    by (simp add: flushFrom_def)
qed

lemma flushFrom_ordered:
  assumes "ordered c ms e" and "currentIndex (buf s) = c"
    and "e \<le> c + int (length (buffer (buf s)))"
    and "\<forall>j. c \<le> j \<and> j < e \<longrightarrow> matches s j = map_of ms j"
    and "0 \<le> c" and "e \<le> MaxInt64"
  shows "flushFrom bufferWriter c e s =
     (None, s\<lparr>buf := \<lparr>buffer = drop (nat (e - c)) (buffer (buf s)), currentIndex = e\<rparr>,
              dest := dest s @ masked c (take (nat (e - c)) (buffer (buf s))) ms,
              matches := matches s |` (- fst ` set ms)\<rparr>)"
  using assms
proof (induction ms arbitrary: s c)
  case Nil
  then show ?case
    using flushFrom_plain [of s c e] by simp
next
  case (Cons m ms)
  obtain i len where m: "m = (i, len)" by (cases m)
  let ?data = "buffer (buf s)"
  let ?s1 = "s\<lparr>dest := dest s @ take (nat (i - c)) ?data
                   @ (if c < i \<or> i = 0 then redactionText else []),
          buf := \<lparr>buffer = drop (nat (i + len - c)) ?data, currentIndex = i + len\<rparr>,
          matches := (matches s)(i := None)\<rparr>"
  from Cons.prems(1) m have ci: "c \<le> i" and len: "0 < len" and ord: "ordered (i + len) ms e"
    by simp_all
  from ord have ile: "i + len \<le> e" by (rule ordered_end)
  have mi: "matches s i = Some len"
    using Cons.prems(4) m ci len ile by simp
  have none: "\<forall>j. c \<le> j \<and> j < i + len \<and> j \<noteq> i \<longrightarrow> matches s j = None"
    using Cons.prems(4) m ile ordered_before [OF ord] by auto
  have step: "flushFrom bufferWriter c e s = flushFrom bufferWriter (i + len) e ?s1"
    using Cons.prems(2) ci len ile Cons.prems(3) mi none Cons.prems(5,6) by (rule flushFrom_step)
  have rest: "\<forall>j. i + len \<le> j \<and> j < e \<longrightarrow> matches ?s1 j = map_of ms j"
    using Cons.prems(4) m ci len by auto
  have bound: "e \<le> (i + len) + int (length (buffer (buf ?s1)))"
    using Cons.prems(3) ci len ile by simp
  have ih: "flushFrom bufferWriter (i + len) e ?s1 =
     (None, ?s1\<lparr>buf := \<lparr>buffer = drop (nat (e - (i + len))) (buffer (buf ?s1)), currentIndex = e\<rparr>,
              dest := dest ?s1 @ masked (i + len) (take (nat (e - (i + len))) (buffer (buf ?s1))) ms,
              matches := matches ?s1 |` (- fst ` set ms)\<rparr>)"
    using ord rest bound ci len Cons.prems(5,6) by (intro Cons.IH) simp_all
  have d: "drop (nat (e - (i + len))) (drop (nat (i + len - c)) ?data) = drop (nat (e - c)) ?data"
  proof -
    have "nat (e - (i + len)) + nat (i + len - c) = nat (e - c)"
      using ci len ile by simp
    then show ?thesis by simp
  qed
  have t1: "take (nat (i - c)) (take (nat (e - c)) ?data) = take (nat (i - c)) ?data"
    using ci len ile by (simp add: min_def)
  have t2: "drop (nat (i + len - c)) (take (nat (e - c)) ?data)
              = take (nat (e - (i + len))) (drop (nat (i + len - c)) ?data)"
  proof -
    have "nat (e - c) - nat (i + len - c) = nat (e - (i + len))"
      using ci len ile by simp
    then show ?thesis by (simp add: drop_take)
  qed
  have mm: "((matches s)(i := None)) |` (- fst ` set ms) = matches s |` (- fst ` set (m # ms))"
    by (rule ext) (simp add: restrict_map_def m)
  show ?case
    unfolding step ih using d t1 t2 mm by (simp add: m)
qed

text \<open>
  Claim C3, as the code has it. The range of a flush holds two adjacent matches and no
  other, and the first of them starts at offset 0 or has at least one byte of the flush
  before it. The destination receives the flushed bytes before the first match, one
  redaction marker, and the flushed bytes after the second match: the marker of the first
  match is the only one, the second match is dropped without a marker of its own. The
  consumed offset is not negative and the bytes ever written are at most \<open>MaxInt64\<close>.
\<close>

theorem adjacent_matches_one_marker:
  assumes "0 \<le> CurrentIndex (buf s)" and "CurrentIndex (buf s) \<le> i"
    and "CurrentIndex (buf s) < i \<or> i = 0"
    and "0 < l1" and "0 < l2" and "i + l1 + l2 \<le> CurrentIndex (buf s) + n"
    and "n \<le> int (length (buffer (buf s)))" and "totalWritten (buf s) \<le> MaxInt64"
    and "\<forall>j. CurrentIndex (buf s) \<le> j \<and> j < CurrentIndex (buf s) + n
           \<longrightarrow> matches s j = [i \<mapsto> l1, i + l1 \<mapsto> l2] j"
  shows "fst (flush bufferWriter s n) = None
       \<and> dest (snd (flush bufferWriter s n)) =
           dest s @ take (nat (i - CurrentIndex (buf s))) (take (nat n) (buffer (buf s)))
             @ redactionText
             @ drop (nat (i + l1 + l2 - CurrentIndex (buf s))) (take (nat n) (buffer (buf s)))"
proof -
  let ?c = "currentIndex (buf s)"
  let ?ms = "[(i, l1), (i + l1, l2)]"
  have c0: "0 \<le> ?c" and ci: "?c \<le> i" and first: "?c < i \<or> i = 0"
    using assms(1,2,3) by (simp_all add: CurrentIndex_def)
  have top: "?c + n \<le> MaxInt64"
    using assms(7,8) by (simp add: totalWritten_def)
  have e: "wrap64 (?c + n) = ?c + n"
    using c0 ci assms(4,5,6) top by (intro wrap64_id) (simp_all add: CurrentIndex_def MaxInt64_def)
  have ord: "ordered ?c ?ms (?c + n)"
    using assms(4,5,6) ci by (simp add: CurrentIndex_def)
  have m: "\<forall>j. ?c \<le> j \<and> j < ?c + n \<longrightarrow> matches s j = map_of ?ms j"
    using assms(4,9) by (auto simp: CurrentIndex_def)
  have bound: "?c + n \<le> ?c + int (length (buffer (buf s)))"
    using assms(7) by simp
  have n: "nat l2 + nat (i + l1 - ?c) = nat (i + l1 + l2 - ?c)"
    using assms(4,5) ci by simp
  have z: "i + l1 \<noteq> 0"
    using assms(4) ci c0 by simp
  show ?thesis
    using flushFrom_ordered [OF ord refl bound m c0 top] n z first
    by (simp add: flush_flushFrom CurrentIndex_def e)
qed

text \<open>Witness of C3: the matches \<open>AA\<close> and \<open>BB\<close> in \<open>xAABBy\<close>.\<close>

theorem adjacent_matches_one_marker_witness:
  "fst (flush bufferWriter adjacentStream 6) = None
   \<and> dest (snd (flush bufferWriter adjacentStream 6)) = ''x<redacted by SecretHub>y''"
  using adjacent_matches_one_marker [of adjacentStream 1 2 2 6]
  by (simp add: adjacentStream_def CurrentIndex_def redactionText_def totalWritten_def MaxInt64_def)

text \<open>
  Claim C3, as the specification states it, fails: a flush of six bytes with two adjacent
  matches, at the offsets 1 and 3 and of length 2 each, sends one marker to the
  destination, not two.
\<close>

theorem adjacent_matches_counterexample:
  "matches adjacentStream 1 = Some 2
   \<and> matches adjacentStream 3 = Some 2
   \<and> fst (flush bufferWriter adjacentStream 6) = None
   \<and> dest (snd (flush bufferWriter adjacentStream 6)) = ''x<redacted by SecretHub>y''
   \<and> occurrences redactionText (dest (snd (flush bufferWriter adjacentStream 6))) = 1"
  by code_simp

section \<open>A sequence of writes\<close>




section \<open>A secret at the start of the output\<close>











section \<open>Scenarios\<close>

text \<open>
  Claim C2. With \<open>token123\<close> as the known secret, the writes \<open>tok\<close> and \<open>en123\<close>
  followed by the flush of all buffered bytes leave the same bytes at the destination as the
  single write \<open>token123\<close> followed by the same flush: one redaction marker, whether the
  bytes are flushed by one call or frame by frame.
\<close>

theorem split_match_same_output:
  "flushedOutput [''token123''] [''tok'', ''en123''] = flushedOutput [''token123''] [''token123'']
   \<and> flushedOutput [''token123''] [''token123''] = Some (None, redactionText)
   \<and> scheduledOutput [''token123''] [''tok'', ''en123''] = scheduledOutput [''token123''] [''token123'']
   \<and> scheduledOutput [''token123''] [''token123''] = Some (None, redactionText)"
  by code_simp

text \<open>
  Claim C4, on the code. With \<open>sekrit\<close> as the only known secret the writes
  \<open>before \<close>, \<open>sek\<close> and \<open>rit after\<close> register the frames 7, 3 and 9 and record the
  match at offset 7. The three scheduled flushes leave \<open>before  after\<close> at the
  destination: the secret is dropped and no marker is written. The match starts at the
  first offset of the second flush, so \<open>beforeMatch\<close> is empty and the consumed offset is
  7, and the guard of the source skips the marker although \<open>before \<close> precedes the match.
\<close>

theorem sekrit_scenario_by_frames:
  "pendingAt [''sekrit''] [''before '', ''sek'', ''rit after''] 7 = Some 6
   \<and> scheduledOutput [''sekrit''] [''before '', ''sek'', ''rit after'']
       = Some (None, ''before  after'')
   \<and> occurrences redactionText ''before  after'' = 0"
  by code_simp

text \<open>
  One flush of the 19 buffered bytes, which no frame asks for, writes the marker of the
  source between the two pieces: \<open>before <redacted by SecretHub> after\<close>.
\<close>

lemma one_flush_of_sekrit:
  "flushedOutput [''sekrit''] [''before '', ''sek'', ''rit after'']
     = Some (None, ''before <redacted by SecretHub> after'')"
  by code_simp

text \<open>
  Claim C1, on the code. With \<open>ab\<close> as the known secret the writes \<open>xa\<close> and \<open>abb\<close>
  register the frames 2 and 3 and record the occurrence at offset 2. The two scheduled
  flushes leave \<open>xab\<close> at the destination: the occurrence is dropped without a marker,
  for the same reason as in the scenario of C4, the bytes around it join, and the secret
  is a contiguous substring of the output.
\<close>

theorem scheduled_flushes_leak:
  "occurrences ''ab'' (concat [''xa'', ''abb'']) = 1
   \<and> pendingAt [''ab''] [''xa'', ''abb''] 2 = Some 2
   \<and> scheduledOutput [''ab''] [''xa'', ''abb''] = Some (None, ''xab'')
   \<and> occurrences ''ab'' ''xab'' = 1
   \<and> occurrences redactionText ''xab'' = 0"
  by code_simp

text \<open>
  A flush that drops a match beyond its own range moves the consumed offset ahead of the
  frames. With \<open>bcde\<close> as the known secret, the writes \<open>abc\<close> and \<open>def\<close> and
  the flushes of their two frames leave the consumed offset at 8 with six bytes written; the
  match of a later write \<open>bcde\<close> starts at offset 6, below the consumed offset, is
  dropped by \<open>addMatch\<close>, and the flush of its frame sends the secret to the destination.
\<close>

lemma overrun_then_plaintext:
  "map_option dest (runEvents bufferWriter (newStream [] [''bcde''])
      [WriteBytes ''abc'', WriteBytes ''def'', FlushFrame, FlushFrame,
       WriteBytes ''bcde'', FlushFrame])
     = Some ''a<redacted by SecretHub>fbcde''"
  by code_simp

text \<open>
  Two adjacent occurrences share one marker, as the comment of the source says: with
  \<open>ab\<close> as the known secret and the single write \<open>abab\<close>, the occurrences at the offsets
  0 and 2 are recorded and the destination receives one marker.
\<close>

lemma adjacent_occurrences_share_marker:
  "pendingAt [''ab''] [''abab''] 0 = Some 2
   \<and> pendingAt [''ab''] [''abab''] 2 = Some 2
   \<and> scheduledOutput [''ab''] [''abab''] = Some (None, ''<redacted by SecretHub>'')
   \<and> occurrences redactionText ''<redacted by SecretHub>'' = 1"
  by code_simp

text \<open>
  Claim C10. A flush is not atomic when the destination fails. The stream holds
  \<open>abcXYZdef\<close> with a match pending at offset 3, and the destination fails on the first
  write, that of the bytes before the match: the flush returns the error, the consumed
  offset has moved from 0 to 3, the match is still pending and the destination has received
  nothing. With a destination that accepts one write and fails on the marker, the state is
  the same but for the three bytes received. A second flush of the stream that the first
  one left, of the six bytes that remain and to a destination that works again, sends
  \<open>def\<close> only: the bytes \<open>abc\<close> are lost.
\<close>

theorem flush_not_atomic:
  "CurrentIndex (buf (failingStream 0)) = 0
   \<and> fst (flush limitedWriter (failingStream 0) 9) = Some (DestError ''write failed'')
   \<and> buf (snd (flush limitedWriter (failingStream 0) 9)) = \<lparr>buffer = ''XYZdef'', currentIndex = 3\<rparr>
   \<and> matches (snd (flush limitedWriter (failingStream 0) 9)) 3 = Some 3
   \<and> dest (snd (flush limitedWriter (failingStream 0) 9)) = ([], 0)
   \<and> fst (flush limitedWriter (failingStream 1) 9) = Some (DestError ''write failed'')
   \<and> buf (snd (flush limitedWriter (failingStream 1) 9)) = \<lparr>buffer = ''XYZdef'', currentIndex = 3\<rparr>
   \<and> matches (snd (flush limitedWriter (failingStream 1) 9)) 3 = Some 3
   \<and> dest (snd (flush limitedWriter (failingStream 1) 9)) = (''abc'', 0)
   \<and> fst (flush limitedWriter
          ((snd (flush limitedWriter (failingStream 0) 9))\<lparr>dest := ([], 9)\<rparr>) 6) = None
   \<and> dest (snd (flush limitedWriter
          ((snd (flush limitedWriter (failingStream 0) 9))\<lparr>dest := ([], 9)\<rparr>) 6)) = (''def'', 7)"
  by code_simp

end
